theory Spec2Isabelle
  imports Main "HOL-Library.Multiset"
begin

section \<open>Data model of server.go\<close>

text \<open>
  A Go slice of \<open>int\<close> is either \<open>nil\<close> or a (possibly empty) sequence; the two are told
  apart by the JSON encoder (\<open>null\<close> against \<open>[]\<close>), so the model keeps them apart.
  The numbers are only compared and sorted, never added or multiplied, so Go's \<open>int\<close> is
  modelled by \<open>int\<close>: no operation of the program can wrap around. A number in a
  response that does not fit Go's \<open>int\<close> makes the decoding fail.
\<close>

datatype slice = NilSlice | Slice "int list"

fun elems :: "slice \<Rightarrow> int list" where
  "elems NilSlice = []"
| "elems (Slice xs) = xs"

definition len :: "slice \<Rightarrow> nat" where
  "len s = length (elems s)"

text \<open>\<open>type payload struct { Numbers []int }\<close> and \<open>type result struct { data payload }\<close>.\<close>

record payload =
  Numbers :: slice

record result =
  data :: payload

text \<open>
  \<open>cacheExpiration\<close> is a duration, counted in nanoseconds as \<open>time.Duration\<close> does;
  a point in time is its Unix time in nanoseconds.
\<close>

type_synonym time = int

definition cacheExpiration :: int where
  "cacheExpiration = 10 * 60 * 1000000000"

section \<open>The cache library (github.com/patrickmn/go-cache)\<close>

text \<open>
  Modelled from the spec: the cache library is a dependency of the repository and its
  code is not part of the sources; \<open>server.go\<close> calls its \<open>Get\<close>, \<open>Add\<close> and \<open>Delete\<close>.
  Section 4.3 of the specification gives the behaviour relied on: a read misses on an
  absent or an expired entry, expiry is evaluated lazily on a read, and every access is safe
  under concurrent use. In the terms of the library's interface: an item is a value of
  type \<open>interface{}\<close> with an expiration time (0 or less: it never expires); \<open>Get\<close>
  misses on an absent or an expired item; \<open>Add\<close> stores only when \<open>Get\<close> would miss
  and reports an error otherwise; \<open>Delete\<close> removes the item. Every operation runs under
  the cache's own lock, so each one is a single atomic step. \<open>serverCache\<close> is built by
  \<open>cache.New(cacheExpiration, 0)\<close>: its default expiration is \<open>cacheExpiration\<close> and
  nothing removes an expired item before it is overwritten.
\<close>

datatype iface = IntSlice slice | OtherValue

record item =
  Object :: iface
  Expiration :: int

type_synonym cache = "string \<rightharpoonup> item"

datatype cache_error = AlreadyExists

text \<open>
  Modelled from the spec: \<open>Get\<close> of the cache library (not under the sources). A read
  misses on an absent entry and on one whose expiration has passed; nothing is removed.
\<close>

definition cache_Get :: "time \<Rightarrow> string \<Rightarrow> cache \<Rightarrow> iface option" where
  "cache_Get now k c =
     (case c k of
        None \<Rightarrow> None
      | Some it \<Rightarrow>
          if Expiration it > 0 \<and> now > Expiration it then None else Some (Object it))"

text \<open>
  Modelled from the spec: the library's internal store, used by \<open>Add\<close>. The entry is
  replaced as a whole and its expiration restarts from the time of the write; a duration of
  0 stands for the cache's default.
\<close>

definition cache_set :: "string \<Rightarrow> iface \<Rightarrow> int \<Rightarrow> time \<Rightarrow> cache \<Rightarrow> cache" where
  "cache_set k x d now c =
     (let d' = (if d = 0 then cacheExpiration else d);
          e = (if d' > 0 then now + d' else 0)
      in c(k \<mapsto> \<lparr>Object = x, Expiration = e\<rparr>))"

text \<open>
  Modelled from the spec: \<open>Add\<close> of the cache library. It stores only when a read of the
  key would miss, and returns an error otherwise, leaving the cache as it is.
\<close>

definition cache_Add :: "string \<Rightarrow> iface \<Rightarrow> int \<Rightarrow> time \<Rightarrow> cache \<Rightarrow> cache_error option \<times> cache" where
  "cache_Add k x d now c =
     (case cache_Get now k c of
        Some _ \<Rightarrow> (Some AlreadyExists, c)
      | None \<Rightarrow> (None, cache_set k x d now c))"

text \<open>
  Modelled from the spec: \<open>Delete\<close> of the cache library. The entry of the key is removed;
  no eviction callback is installed.
\<close>

definition cache_Delete :: "string \<Rightarrow> cache \<Rightarrow> cache" where
  "cache_Delete k c = c(k := None)"

section \<open>Cache access of the server\<close>

text \<open>
  The type assertion \<open>data, _ = val.([]int)\<close> is the two-valued form: on a value of another
  dynamic type it yields the zero value \<open>nil\<close> and \<open>false\<close>, and does not panic.
\<close>

fun assert_ints :: "iface \<Rightarrow> slice \<times> bool" where
  "assert_ints (IntSlice s) = (s, True)"
| "assert_ints OtherValue = (NilSlice, False)"

definition getResultFromCache :: "time \<Rightarrow> string \<Rightarrow> cache \<Rightarrow> slice" where
  "getResultFromCache now url c =
     (case cache_Get now url c of
        None \<Rightarrow> NilSlice
      | Some val \<Rightarrow> fst (assert_ints val))"

text \<open>
  \<open>updateCache\<close> run by one goroutine with nothing in between its two calls, as the tests
  call it. The error of \<open>Add\<close> is dropped, as in the source.
\<close>

definition updateCache :: "time \<Rightarrow> string \<Rightarrow> slice \<Rightarrow> cache \<Rightarrow> cache" where
  "updateCache now url numbers c =
     snd (cache_Add url (IntSlice numbers) cacheExpiration now (cache_Delete url c))"

section \<open>The reducer\<close>

text \<open>
  \<open>uniqueNumbers\<close> is a \<open>map[int]struct{}\<close>, a set of integers; \<open>uniqueNumbersSlice\<close> grows by
  \<open>append\<close>. The inner loop runs over the numbers of one result, the outer one over the
  results. \<open>sort.Ints\<close> of the standard library sorts in increasing order; as integers
  that compare equal are equal, its result is the sorted list.
\<close>

fun uniqueLoop :: "int list \<Rightarrow> int set \<times> int list \<Rightarrow> int set \<times> int list" where
  "uniqueLoop [] st = st"
| "uniqueLoop (num # nums) (uniqueNumbers, uniqueNumbersSlice) =
     (if num \<in> uniqueNumbers then uniqueLoop nums (uniqueNumbers, uniqueNumbersSlice)
      else uniqueLoop nums (insert num uniqueNumbers, uniqueNumbersSlice @ [num]))"

fun resultLoop :: "result list \<Rightarrow> int set \<times> int list \<Rightarrow> int set \<times> int list" where
  "resultLoop [] st = st"
| "resultLoop (r # rs) st = resultLoop rs (uniqueLoop (elems (Numbers (data r))) st)"

definition sort_Ints :: "int list \<Rightarrow> int list" where
  "sort_Ints xs = sort xs"

definition processFinalResult :: "result list \<Rightarrow> slice" where
  "processFinalResult res = Slice (sort_Ints (snd (resultLoop res ({}, []))))"

text \<open>All the numbers carried by a sequence of results, in order.\<close>

definition numbersOf :: "result list \<Rightarrow> int list" where
  "numbersOf res = concat (map (\<lambda>r. elems (Numbers (data r))) res)"

section \<open>One fetch\<close>

text \<open>
  What the world does to one fetch is not decided by the program: whether \<open>ctx.Done()\<close>
  is ready when \<open>getResponseFromURL\<close> runs its \<open>select\<close>, and how far the request gets.
  \<open>DoFails\<close> covers a transport failure and a deadline that elapses during \<open>client.Do\<close>;
  \<open>DecodeFails\<close> covers an undecodable body and a deadline that elapses while the body is
  read. Every attempt ends with one of these outcomes, as the request carries the context
  and its deadline. The theorems quantify over every such environment.
\<close>

datatype outcome = NewRequestFails | DoFails | DecodeFails | Decodes payload

record env =
  ctxDone :: bool
  network :: outcome

text \<open>
  A goroutine running \<open>getResponseFromURL\<close> touches shared state at three places: a read
  of the cache, the two calls inside \<open>updateCache\<close>, and the send on the channel. Between
  them it is at one of these points. \<open>netCalls\<close> counts its calls of \<open>client.Do\<close>, and
  \<open>sent\<close> lists what it has delivered on the channel.
\<close>

datatype pc = Start | AfterDelete payload | Sending result | Done

record goroutine =
  pc :: pc
  netCalls :: nat
  sent :: "result list"

definition newGoroutine :: goroutine where
  "newGoroutine = \<lparr>pc = Start, netCalls = 0, sent = []\<rparr>"

text \<open>The statement \<open>ch <- result{data: payload{Numbers: getResultFromCache(url)}}\<close>, up to the send.\<close>

definition cachedResult :: "time \<Rightarrow> string \<Rightarrow> cache \<Rightarrow> result" where
  "cachedResult now url c = \<lparr>data = \<lparr>Numbers = getResultFromCache now url c\<rparr>\<rparr>"

text \<open>
  \<open>makeGetRequestForURL\<close> from its entry to its first access of shared state after the
  network attempt: the cache read of a fallback, the \<open>Delete\<close> of \<open>updateCache\<close>, or
  the final send.
\<close>

definition makeGetRequestForURL ::
  "outcome \<Rightarrow> time \<Rightarrow> string \<Rightarrow> goroutine \<Rightarrow> cache \<Rightarrow> goroutine \<times> cache" where
  "makeGetRequestForURL out now url g c =
     (case out of
        NewRequestFails \<Rightarrow> (g\<lparr>pc := Sending (cachedResult now url c)\<rparr>, c)
      | DoFails \<Rightarrow>
          (g\<lparr>pc := Sending (cachedResult now url c), netCalls := netCalls g + 1\<rparr>, c)
      | DecodeFails \<Rightarrow>
          (g\<lparr>pc := Sending (cachedResult now url c), netCalls := netCalls g + 1\<rparr>, c)
      | Decodes numbers \<Rightarrow>
          if len (Numbers numbers) > 0
          then (g\<lparr>pc := AfterDelete numbers, netCalls := netCalls g + 1\<rparr>, cache_Delete url c)
          else (g\<lparr>pc := Sending \<lparr>data = numbers\<rparr>, netCalls := netCalls g + 1\<rparr>, c))"

definition getResponseFromURL ::
  "env \<Rightarrow> time \<Rightarrow> string \<Rightarrow> goroutine \<Rightarrow> cache \<Rightarrow> goroutine \<times> cache" where
  "getResponseFromURL e now url g c =
     (if ctxDone e then (g\<lparr>pc := Sending (cachedResult now url c)\<rparr>, c)
      else makeGetRequestForURL (network e) now url g c)"

text \<open>
  One atomic step of a goroutine at time \<open>now\<close>. The channel is unbuffered: a send
  completes only while \<open>processURLs\<close> is receiving, and hands the result over; otherwise
  the goroutine stays blocked. The third component is what the step delivers.
\<close>

definition goroutineStep ::
  "env \<Rightarrow> time \<Rightarrow> string \<Rightarrow> bool \<Rightarrow> goroutine \<Rightarrow> cache \<Rightarrow> goroutine \<times> cache \<times> result list" where
  "goroutineStep e now url receiving g c =
     (case pc g of
        Start \<Rightarrow> (case getResponseFromURL e now url g c of (g', c') \<Rightarrow> (g', c', []))
      | AfterDelete numbers \<Rightarrow>
          (g\<lparr>pc := Sending \<lparr>data = numbers\<rparr>\<rparr>,
           snd (cache_Add url (IntSlice (Numbers numbers)) cacheExpiration now c), [])
      | Sending r \<Rightarrow>
          if receiving then (g\<lparr>pc := Done, sent := sent g @ [r]\<rparr>, c, [r]) else (g, c, [])
      | Done \<Rightarrow> (g, c, []))"

text \<open>
  One fetch run from start to end with nothing else running and \<open>processURLs\<close> receiving:
  at most three steps.
\<close>

definition runAlone :: "env \<Rightarrow> time \<Rightarrow> string \<Rightarrow> cache \<Rightarrow> goroutine \<times> cache" where
  "runAlone e now url c =
     (case goroutineStep e now url True newGoroutine c of (g1, c1, _) \<Rightarrow>
      case goroutineStep e now url True g1 c1 of (g2, c2, _) \<Rightarrow>
      case goroutineStep e now url True g2 c2 of (g3, c3, _) \<Rightarrow> (g3, c3))"

text \<open>
  What that run hands over on the channel: the results delivered by its steps, in order.
\<close>

definition deliveredAlone :: "env \<Rightarrow> time \<Rightarrow> string \<Rightarrow> cache \<Rightarrow> result list" where
  "deliveredAlone e now url c =
     (case goroutineStep e now url True newGoroutine c of (g1, c1, out1) \<Rightarrow>
      case goroutineStep e now url True g1 c1 of (g2, c2, out2) \<Rightarrow>
      case goroutineStep e now url True g2 c2 of (g3, c3, out3) \<Rightarrow> out1 @ out2 @ out3)"

definition failing :: "env \<Rightarrow> bool" where
  "failing e = (ctxDone e \<or> network e = NewRequestFails \<or> network e = DoFails
                \<or> network e = DecodeFails)"

section \<open>The orchestrator\<close>

text \<open>
  \<open>processURLs\<close> starts one goroutine per URL and then receives \<open>len(urls)\<close> times.
  The goroutines run interleaved in an order the program does not control: a schedule
  lists which goroutine takes its next step, and at what time. The environment of the
  \<open>i\<close>-th goroutine is \<open>envs i\<close>. The shared deadline of \<open>context.WithTimeout(ctx,
  timeoutGetReq)\<close> acts through the environments only.
\<close>

record system =
  serverCache :: cache
  goroutines :: "goroutine list"
  results :: "result list"

type_synonym schedule = "(nat \<times> time) list"

definition spawn :: "string list \<Rightarrow> cache \<Rightarrow> system" where
  "spawn urls c =
     \<lparr>serverCache = c, goroutines = map (\<lambda>_. newGoroutine) urls, results = []\<rparr>"

definition step :: "(nat \<Rightarrow> env) \<Rightarrow> string list \<Rightarrow> nat \<times> time \<Rightarrow> system \<Rightarrow> system" where
  "step envs urls a s =
     (case a of (i, now) \<Rightarrow>
        if i < length (goroutines s) then
          (case goroutineStep (envs i) now (urls ! i) (length (results s) < length urls)
                  (goroutines s ! i) (serverCache s) of
             (g', c', out) \<Rightarrow>
               \<lparr>serverCache = c', goroutines = (goroutines s)[i := g'],
                results = results s @ out\<rparr>)
        else s)"

fun run :: "(nat \<Rightarrow> env) \<Rightarrow> string list \<Rightarrow> schedule \<Rightarrow> system \<Rightarrow> system" where
  "run envs urls [] s = s"
| "run envs urls (a # as) s = run envs urls as (step envs urls a s)"

text \<open>
  \<open>processURLs\<close> returns once its loop has received \<open>len(urls)\<close> results; under a
  schedule that ends before that, it has not returned (\<open>None\<close>). The cache is returned
  along with the results.
\<close>

definition processURLs ::
  "(nat \<Rightarrow> env) \<Rightarrow> schedule \<Rightarrow> string list \<Rightarrow> cache \<Rightarrow> (result list \<times> cache) option" where
  "processURLs envs sched urls c =
     (let s = run envs urls sched (spawn urls c)
      in if length (results s) < length urls then None
         else Some (results s, serverCache s))"

text \<open>
  A schedule is fair for \<open>k\<close> goroutines when each of them is given at least three steps.
\<close>

definition fair :: "nat \<Rightarrow> schedule \<Rightarrow> bool" where
  "fair k sched = list_all (\<lambda>i. 3 \<le> count_list (map fst sched) i) [0..<k]"

text \<open>
  The two calls of \<open>numbersHandler\<close> that make up the aggregation:
  \<open>processFinalResult(processURLs(ctx, urls))\<close>.
\<close>

definition aggregate ::
  "(nat \<Rightarrow> env) \<Rightarrow> schedule \<Rightarrow> string list \<Rightarrow> cache \<Rightarrow> (slice \<times> cache) option" where
  "aggregate envs sched urls c =
     (case processURLs envs sched urls c of
        None \<Rightarrow> None
      | Some (rs, c') \<Rightarrow> Some (processFinalResult rs, c'))"

section \<open>Invariants of the orchestrator\<close>

text \<open>
  How far a goroutine has got; what a goroutine at each point has sent; everything the
  goroutines have delivered; and the invariant that ties the \<open>results\<close> of
  \<open>processURLs\<close> to it.
\<close>

fun rank :: "pc \<Rightarrow> nat" where
  "rank Start = 0"
| "rank (AfterDelete _) = 1"
| "rank (Sending _) = 2"
| "rank Done = 3"

definition wfg :: "goroutine \<Rightarrow> bool" where
  "wfg g =
     (case pc g of
        Start \<Rightarrow> sent g = []
      | AfterDelete numbers \<Rightarrow> sent g = [] \<and> 0 < len (Numbers numbers)
      | Sending r \<Rightarrow> sent g = []
      | Done \<Rightarrow> length (sent g) = 1)"

definition delivered :: "goroutine list \<Rightarrow> result list" where
  "delivered gs = concat (map sent gs)"

definition Inv :: "nat \<Rightarrow> system \<Rightarrow> bool" where
  "Inv k s =
     (length (goroutines s) = k \<and> list_all wfg (goroutines s)
      \<and> mset (results s) = mset (delivered (goroutines s)))"

text \<open>
  What a fetch that succeeds delivers; a goroutine whose pending and delivered results all
  satisfy \<open>P\<close>; a goroutine that is not inside \<open>updateCache\<close>; and a cache whose entry
  for a source is absent or holds no number.
\<close>

definition freshResult :: "env \<Rightarrow> result" where
  "freshResult e =
     \<lparr>data = (case network e of Decodes numbers \<Rightarrow> numbers | _ \<Rightarrow> \<lparr>Numbers = NilSlice\<rparr>)\<rparr>"

definition ok :: "(result \<Rightarrow> bool) \<Rightarrow> goroutine \<Rightarrow> bool" where
  "ok P g =
     (case pc g of
        Start \<Rightarrow> sent g = []
      | AfterDelete numbers \<Rightarrow> P \<lparr>data = numbers\<rparr> \<and> sent g = []
      | Sending r \<Rightarrow> P r \<and> sent g = []
      | Done \<Rightarrow> length (sent g) = 1 \<and> list_all P (sent g))"

definition noWrite :: "goroutine \<Rightarrow> bool" where
  "noWrite g = (case pc g of AfterDelete _ \<Rightarrow> False | _ \<Rightarrow> True)"

definition cacheEmptyFor :: "cache \<Rightarrow> string \<Rightarrow> bool" where
  "cacheEmptyFor c url =
     (case c url of None \<Rightarrow> True | Some it \<Rightarrow> len (fst (assert_ints (Object it))) = 0)"

section \<open>Properties of the reducer\<close>

lemma uniqueLoop_inv:
  "u = set sl \<Longrightarrow> distinct sl \<Longrightarrow>
   fst (uniqueLoop nums (u, sl)) = set (snd (uniqueLoop nums (u, sl)))
   \<and> distinct (snd (uniqueLoop nums (u, sl)))
   \<and> set (snd (uniqueLoop nums (u, sl))) = set sl \<union> set nums"
proof (induction nums arbitrary: u sl)
  case Nil
  then show ?case by simp
next
  case (Cons num nums)
  show ?case
  proof (cases "num \<in> u")
    case True
    with Cons.IH [OF Cons.prems] Cons.prems show ?thesis by auto
  next
    case False
    have a: "insert num u = set (sl @ [num])" using Cons.prems by simp
    have b: "distinct (sl @ [num])" using Cons.prems False by simp
    from Cons.IH [OF a b] False show ?thesis by auto
  qed
qed

lemma resultLoop_inv:
  "fst st = set (snd st) \<Longrightarrow> distinct (snd st) \<Longrightarrow>
   fst (resultLoop res st) = set (snd (resultLoop res st))
   \<and> distinct (snd (resultLoop res st))
   \<and> set (snd (resultLoop res st)) = set (snd st) \<union> set (numbersOf res)"
proof (induction res arbitrary: st)
  case Nil
  then show ?case by (simp add: numbersOf_def)
next
  case (Cons r rs)
  obtain u sl where st: "st = (u, sl)" by (cases st)
  let ?st' = "uniqueLoop (elems (Numbers (data r))) (u, sl)"
  have step: "fst ?st' = set (snd ?st') \<and> distinct (snd ?st')
      \<and> set (snd ?st') = set sl \<union> set (elems (Numbers (data r)))"
    using uniqueLoop_inv [of u sl] Cons.prems st by simp
  have "fst (resultLoop rs ?st') = set (snd (resultLoop rs ?st'))
      \<and> distinct (snd (resultLoop rs ?st'))
      \<and> set (snd (resultLoop rs ?st')) = set (snd ?st') \<union> set (numbersOf rs)"
    using Cons.IH [of ?st'] step by simp
  with step st show ?case by (auto simp: numbersOf_def)
qed

lemma processFinalResult_elems:
  "distinct (elems (processFinalResult res))
   \<and> sorted (elems (processFinalResult res))
   \<and> set (elems (processFinalResult res)) = set (numbersOf res)"
  using resultLoop_inv [of "({}, [])" res]
  by (simp add: processFinalResult_def sort_Ints_def)

lemma processFinalResult_unique:
  "processFinalResult res = Slice (sorted_list_of_set (set (numbersOf res)))"
proof -
  obtain ys where ys: "processFinalResult res = Slice ys"
    by (simp add: processFinalResult_def)
  have "sorted ys" "distinct ys" "set ys = set (numbersOf res)"
    using processFinalResult_elems [of res] ys by simp_all
  then have "ys = sorted_list_of_set (set (numbersOf res))"
    by (metis sorted_list_of_set.idem_if_sorted_distinct)
  with ys show ?thesis by simp
qed

text \<open>
  C2. For every sequence of per-source results, \<open>processFinalResult\<close> returns a non-nil
  slice that is strictly ascending (hence free of duplicates) and whose elements are
  exactly the numbers occurring in some input list; for the inputs \<open>{1,2,7}\<close> and
  \<open>{1,5}\<close> it returns exactly \<open>[1,2,5,7]\<close>.
\<close>

theorem processFinalResult_sorted_union:
  "(\<exists>ys. processFinalResult res = Slice ys \<and> sorted_wrt (<) ys \<and> distinct ys
         \<and> set ys = set (numbersOf res))
   \<and> processFinalResult
        [\<lparr>data = \<lparr>Numbers = Slice [1, 2, 7]\<rparr>\<rparr>, \<lparr>data = \<lparr>Numbers = Slice [1, 5]\<rparr>\<rparr>]
      = Slice [1, 2, 5, 7]"
proof
  obtain ys where ys: "processFinalResult res = Slice ys"
    by (simp add: processFinalResult_def)
  have "sorted ys" "distinct ys" "set ys = set (numbersOf res)"
    using processFinalResult_elems [of res] ys by simp_all
  then show "\<exists>ys. processFinalResult res = Slice ys \<and> sorted_wrt (<) ys \<and> distinct ys
         \<and> set ys = set (numbersOf res)"
    using ys by (simp add: strict_sorted_iff)
next
  show "processFinalResult
        [\<lparr>data = \<lparr>Numbers = Slice [1, 2, 7]\<rparr>\<rparr>, \<lparr>data = \<lparr>Numbers = Slice [1, 5]\<rparr>\<rparr>]
      = Slice [1, 2, 5, 7]"
    by (simp add: processFinalResult_def sort_Ints_def)
qed

section \<open>Properties of the cache access and of one fetch\<close>

lemma updateCache_eq:
  "updateCache now url numbers c =
     c(url \<mapsto> \<lparr>Object = IntSlice numbers, Expiration = now + cacheExpiration\<rparr>)"
  by (simp add: updateCache_def cache_Add_def cache_Get_def cache_Delete_def cache_set_def
      cacheExpiration_def)

text \<open>
  C6. For every source and every prior cache state, \<open>updateCache\<close> leaves exactly the
  new value under the source's key, with an expiration of \<open>cacheExpiration\<close> from the
  moment of the write; a second \<open>updateCache\<close> replaces the value of the first, so a
  read that happens no later than the new expiration returns exactly the second value:
  after \<open>{1,5}\<close> and then \<open>{2}\<close> the read gives \<open>{2}\<close>.
\<close>

theorem updateCache_replaces:
  "updateCache now url numbers c url
     = Some \<lparr>Object = IntSlice numbers, Expiration = now + cacheExpiration\<rparr>
   \<and> (t \<le> now + cacheExpiration \<longrightarrow>
        getResultFromCache t url (updateCache now url numbers (updateCache before url old c))
          = numbers)
   \<and> getResultFromCache t2 S (updateCache t2 S (Slice [2]) (updateCache t1 S (Slice [1, 5]) c))
       = Slice [2]"
  by (simp add: updateCache_eq getResultFromCache_def cache_Get_def cacheExpiration_def)

theorem updateCache_replaces_witness:
  "(5::int) \<le> 3 + cacheExpiration
   \<and> getResultFromCache 5 ''a'' (updateCache 3 ''a'' (Slice [2])
        (updateCache 1 ''a'' (Slice [1, 5]) Map.empty)) = Slice [2]"
proof -
  have h: "(5::int) \<le> 3 + cacheExpiration" by (simp add: cacheExpiration_def)
  from updateCache_replaces [of 3 "''a''" "Slice [2]" Map.empty 5 1 "Slice [1, 5]"] h
  show ?thesis by simp
qed

text \<open>
  C10. \<open>getResultFromCache\<close> has a value on every cache state and has no failing branch:
  it is \<open>nil\<close> on an absent or expired entry, \<open>nil\<close> again when the stored value is not
  a \<open>[]int\<close>, and the stored slice otherwise.
\<close>

theorem getResultFromCache_total:
  "getResultFromCache now url c =
     (case c url of
        None \<Rightarrow> NilSlice
      | Some it \<Rightarrow>
          if Expiration it > 0 \<and> now > Expiration it then NilSlice
          else (case Object it of IntSlice s \<Rightarrow> s | OtherValue \<Rightarrow> NilSlice))
   \<and> (cache_Get now url c = None \<longrightarrow> getResultFromCache now url c = NilSlice)
   \<and> (cache_Get now url c = Some OtherValue \<longrightarrow> getResultFromCache now url c = NilSlice)
   \<and> len (getResultFromCache now url (c(url \<mapsto> \<lparr>Object = OtherValue, Expiration = e\<rparr>))) = 0"
  by (simp add: getResultFromCache_def cache_Get_def len_def split: option.splits iface.splits)

theorem getResultFromCache_total_witness:
  "cache_Get 7 ''u'' Map.empty = None \<and> getResultFromCache 7 ''u'' Map.empty = NilSlice
   \<and> cache_Get 7 ''u'' [''u'' \<mapsto> \<lparr>Object = OtherValue, Expiration = 9\<rparr>] = Some OtherValue
   \<and> getResultFromCache 7 ''u'' [''u'' \<mapsto> \<lparr>Object = OtherValue, Expiration = 9\<rparr>] = NilSlice"
proof -
  have a: "cache_Get 7 ''u'' Map.empty = None" by (simp add: cache_Get_def)
  have b: "cache_Get 7 ''u'' [''u'' \<mapsto> \<lparr>Object = OtherValue, Expiration = 9\<rparr>] = Some OtherValue"
    by (simp add: cache_Get_def)
  from getResultFromCache_total [of 7 "''u''" Map.empty]
       getResultFromCache_total [of 7 "''u''" "[''u'' \<mapsto> \<lparr>Object = OtherValue, Expiration = 9\<rparr>]"]
       a b
  show ?thesis by simp
qed

text \<open>
  C5. A fetch that succeeds and decodes to a list of length 0 delivers that list and
  leaves the whole cache as it was: none of its steps writes to the cache, whatever runs
  in between.
\<close>

theorem empty_fetch_leaves_cache:
  "\<not> ctxDone e \<Longrightarrow> network e = Decodes numbers \<Longrightarrow> len (Numbers numbers) = 0 \<Longrightarrow>
     runAlone e now url c = (\<lparr>pc = Done, netCalls = 1, sent = [\<lparr>data = numbers\<rparr>]\<rparr>, c)
     \<and> goroutineStep e t1 url r1 newGoroutine c1
         = (\<lparr>pc = Sending \<lparr>data = numbers\<rparr>, netCalls = 1, sent = []\<rparr>, c1, [])
     \<and> fst (snd (goroutineStep e t2 url r2
                   \<lparr>pc = Sending \<lparr>data = numbers\<rparr>, netCalls = 1, sent = []\<rparr> c2)) = c2"
  by (simp add: runAlone_def goroutineStep_def getResponseFromURL_def makeGetRequestForURL_def
       newGoroutine_def)

theorem empty_fetch_leaves_cache_witness:
  "\<not> ctxDone \<lparr>ctxDone = False, network = Decodes \<lparr>Numbers = Slice []\<rparr>\<rparr>
   \<and> len (Numbers \<lparr>Numbers = Slice []\<rparr>) = 0
   \<and> runAlone \<lparr>ctxDone = False, network = Decodes \<lparr>Numbers = Slice []\<rparr>\<rparr> 5 ''u''
        [''u'' \<mapsto> \<lparr>Object = IntSlice (Slice [4]), Expiration = 9\<rparr>]
      = (\<lparr>pc = Done, netCalls = 1, sent = [\<lparr>data = \<lparr>Numbers = Slice []\<rparr>\<rparr>]\<rparr>,
         [''u'' \<mapsto> \<lparr>Object = IntSlice (Slice [4]), Expiration = 9\<rparr>])"
proof -
  have a: "\<not> ctxDone \<lparr>ctxDone = False, network = Decodes \<lparr>Numbers = Slice []\<rparr>\<rparr>" by simp
  have b: "network \<lparr>ctxDone = False, network = Decodes \<lparr>Numbers = Slice []\<rparr>\<rparr>
      = Decodes \<lparr>Numbers = Slice []\<rparr>" by simp
  have c: "len (Numbers \<lparr>Numbers = Slice []\<rparr>) = 0" by (simp add: len_def)
  from empty_fetch_leaves_cache [OF a b c] a c
  show ?thesis by simp
qed

section \<open>Properties of the orchestrator\<close>

lemma goroutineStep_wfg:
  assumes "wfg g" and "goroutineStep e t u recv g c = (g', c', out)"
  shows "wfg g' \<and> sent g' = sent g @ out \<and> (out \<noteq> [] \<longrightarrow> sent g = [])"
  using assms
  by (cases "pc g"; cases "network e")
     (auto simp: wfg_def goroutineStep_def getResponseFromURL_def makeGetRequestForURL_def
       split: if_splits)

lemma goroutineStep_rank:
  assumes "goroutineStep e t u recv g c = (g', c', out)"
    and "recv \<or> (\<forall>r. pc g \<noteq> Sending r)"
  shows "min 3 (Suc (rank (pc g))) \<le> rank (pc g')"
  using assms
  by (cases "pc g"; cases "network e")
     (auto simp: goroutineStep_def getResponseFromURL_def makeGetRequestForURL_def
       split: if_splits)

lemma delivered_update:
  "i < length gs \<Longrightarrow> sent g' = sent (gs ! i) @ out \<Longrightarrow>
   mset (delivered (gs[i := g'])) = mset (delivered gs) + mset out"
proof (induction gs arbitrary: i)
  case Nil
  then show ?case by simp
next
  case (Cons g gs)
  then show ?case by (cases i) (auto simp: delivered_def)
qed

lemma wfg_sent_le: "wfg g \<Longrightarrow> length (sent g) \<le> 1"
  by (cases "pc g") (auto simp: wfg_def)

lemma delivered_le: "list_all wfg gs \<Longrightarrow> length (delivered gs) \<le> length gs"
proof (induction gs)
  case Nil
  then show ?case by (simp add: delivered_def)
next
  case (Cons g gs)
  then show ?case using wfg_sent_le [of g] by (simp add: delivered_def)
qed

lemma delivered_less:
  "list_all wfg gs \<Longrightarrow> i < length gs \<Longrightarrow> sent (gs ! i) = [] \<Longrightarrow>
   length (delivered gs) < length gs"
proof (induction gs arbitrary: i)
  case Nil
  then show ?case by simp
next
  case (Cons g gs)
  show ?case
  proof (cases i)
    case 0
    with Cons.prems delivered_le [of gs] show ?thesis by (simp add: delivered_def)
  next
    case (Suc j)
    with Cons.prems Cons.IH [of j] wfg_sent_le [of g] show ?thesis
      by (simp add: delivered_def)
  qed
qed

lemma delivered_all_done:
  "list_all (\<lambda>g. pc g = Done \<and> wfg g) gs \<Longrightarrow> length (delivered gs) = length gs"
  by (induction gs) (auto simp: delivered_def wfg_def)

lemma Inv_receiving:
  assumes "Inv (length urls) s" and "i < length urls" and "pc (goroutines s ! i) = Sending r"
  shows "length (results s) < length urls"
proof -
  have len: "length (goroutines s) = length urls" and wf: "list_all wfg (goroutines s)"
    and ms: "mset (results s) = mset (delivered (goroutines s))"
    using assms(1) by (simp_all add: Inv_def)
  have "wfg (goroutines s ! i)" using wf len assms(2) by (simp add: list_all_length)
  then have "sent (goroutines s ! i) = []" using assms(3) by (simp add: wfg_def)
  then have "length (delivered (goroutines s)) < length (goroutines s)"
    using delivered_less [OF wf] len assms(2) by simp
  moreover have "length (results s) = length (delivered (goroutines s))"
    using ms by (metis size_mset)
  ultimately show ?thesis using len by simp
qed

lemma Inv_spawn: "Inv (length urls) (spawn urls c)"
  by (simp add: Inv_def spawn_def delivered_def list_all_iff wfg_def newGoroutine_def)

lemma Inv_step:
  assumes "Inv k s"
  shows "Inv k (step envs urls a s)"
proof -
  obtain i now where a: "a = (i, now)" by (cases a)
  show ?thesis
  proof (cases "i < length (goroutines s)")
    case False
    with a assms show ?thesis by (simp add: step_def)
  next
    case True
    obtain g' c' out where gs:
      "goroutineStep (envs i) now (urls ! i) (length (results s) < length urls)
         (goroutines s ! i) (serverCache s) = (g', c', out)"
      by (metis prod_cases3)
    have s': "step envs urls a s =
        \<lparr>serverCache = c', goroutines = (goroutines s)[i := g'], results = results s @ out\<rparr>"
      using a True gs by (simp add: step_def)
    have wf: "list_all wfg (goroutines s)" using assms by (simp add: Inv_def)
    then have "wfg (goroutines s ! i)" using True by (simp add: list_all_length)
    from goroutineStep_wfg [OF this gs]
    have g': "wfg g'" and snt: "sent g' = sent (goroutines s ! i) @ out" by simp_all
    have "list_all wfg ((goroutines s)[i := g'])"
      using wf g' True by (auto simp: list_all_length nth_list_update)
    moreover have "mset (results s @ out) = mset (delivered ((goroutines s)[i := g']))"
      using delivered_update [OF True snt] assms by (simp add: Inv_def)
    ultimately show ?thesis using assms s' by (simp add: Inv_def)
  qed
qed

lemma Inv_run: "Inv k s \<Longrightarrow> Inv k (run envs urls sched s)"
  by (induction sched arbitrary: s) (simp_all add: Inv_step)

lemma step_other:
  "fst a \<noteq> i \<Longrightarrow> goroutines (step envs urls a s) ! i = goroutines s ! i"
  by (cases a) (auto simp: step_def split: prod.splits)

lemma step_length [simp]:
  "length (goroutines (step envs urls a s)) = length (goroutines s)"
  by (cases a) (auto simp: step_def split: prod.splits)

lemma goroutineStep_rank_mono:
  assumes "goroutineStep e t u recv g c = (g', c', out)"
  shows "rank (pc g) \<le> rank (pc g')"
  using assms
  by (cases "pc g"; cases "network e")
     (auto simp: goroutineStep_def getResponseFromURL_def makeGetRequestForURL_def
       split: if_splits)

lemma step_rank:
  assumes "Inv (length urls) s" and "i < length urls"
  shows "min 3 (rank (pc (goroutines s ! i)) + (if fst a = i then 1 else 0))
           \<le> rank (pc (goroutines (step envs urls a s) ! i))"
proof (cases "fst a = i")
  case False
  then show ?thesis using step_other [of a i envs urls s] by simp
next
  case True
  obtain now where a: "a = (i, now)" using True by (cases a) simp
  have len: "length (goroutines s) = length urls" using assms(1) by (simp add: Inv_def)
  obtain g' c' out where gs:
    "goroutineStep (envs i) now (urls ! i) (length (results s) < length urls)
       (goroutines s ! i) (serverCache s) = (g', c', out)"
    by (metis prod_cases3)
  have nth: "goroutines (step envs urls a s) ! i = g'"
    using a gs len assms(2) by (simp add: step_def)
  have "length (results s) < length urls \<or> (\<forall>r. pc (goroutines s ! i) \<noteq> Sending r)"
    using Inv_receiving [OF assms] by blast
  from goroutineStep_rank [OF gs this] nth True show ?thesis by simp
qed

lemma run_rank:
  "Inv (length urls) s \<Longrightarrow> i < length urls \<Longrightarrow>
   min 3 (rank (pc (goroutines s ! i)) + count_list (map fst sched) i)
     \<le> rank (pc (goroutines (run envs urls sched s) ! i))"
proof (induction sched arbitrary: s)
  case Nil
  then show ?case by simp
next
  case (Cons a sched)
  have inv': "Inv (length urls) (step envs urls a s)" using Cons.prems(1) by (rule Inv_step)
  from Cons.IH [OF inv' Cons.prems(2)] step_rank [OF Cons.prems, of a envs]
  show ?case by (auto split: if_splits)
qed

lemma rank_Done: "3 \<le> rank p \<Longrightarrow> p = Done"
  by (cases p) simp_all

lemma fair_all_done:
  assumes "fair (length urls) sched"
  shows "list_all (\<lambda>g. pc g = Done \<and> wfg g) (goroutines (run envs urls sched (spawn urls c)))"
proof -
  let ?s = "run envs urls sched (spawn urls c)"
  have inv: "Inv (length urls) ?s" using Inv_spawn by (rule Inv_run)
  then have len: "length (goroutines ?s) = length urls"
    and wf: "list_all wfg (goroutines ?s)" by (simp_all add: Inv_def)
  have "pc (goroutines ?s ! i) = Done" if i: "i < length urls" for i
  proof -
    have "3 \<le> count_list (map fst sched) i"
      using assms i by (simp add: fair_def list_all_iff)
    with run_rank [OF Inv_spawn i, of c sched envs]
    show ?thesis by (intro rank_Done) simp
  qed
  with len wf show ?thesis by (simp add: list_all_length)
qed

lemma fair_results:
  assumes "fair (length urls) sched"
  shows "length (results (run envs urls sched (spawn urls c))) = length urls"
proof -
  let ?s = "run envs urls sched (spawn urls c)"
  have inv: "Inv (length urls) ?s" using Inv_spawn by (rule Inv_run)
  have "length (results ?s) = length (delivered (goroutines ?s))"
    using inv by (metis Inv_def size_mset)
  also have "\<dots> = length (goroutines ?s)"
    using fair_all_done [OF assms] by (rule delivered_all_done)
  finally show ?thesis using inv by (simp add: Inv_def)
qed

lemma results_le:
  "length (results (run envs urls sched (spawn urls c))) \<le> length urls"
proof -
  let ?s = "run envs urls sched (spawn urls c)"
  have inv: "Inv (length urls) ?s" using Inv_spawn by (rule Inv_run)
  have "length (results ?s) = length (delivered (goroutines ?s))"
    using inv by (metis Inv_def size_mset)
  also have "\<dots> \<le> length (goroutines ?s)"
    using inv by (intro delivered_le) (simp add: Inv_def)
  finally show ?thesis using inv by (simp add: Inv_def)
qed

text \<open>
  C1. Under every schedule \<open>processURLs\<close> either has not returned yet, with fewer than
  \<open>len(urls)\<close> results received so far, or has returned exactly \<open>len(urls)\<close> results;
  and under every fair schedule it does return, with exactly \<open>len(urls)\<close> results,
  whatever the environments of the fetches are.
\<close>

theorem processURLs_cardinality:
  "(case processURLs envs sched urls c of
      None \<Rightarrow> length (results (run envs urls sched (spawn urls c))) < length urls
    | Some (rs, c') \<Rightarrow> length rs = length urls)
   \<and> (fair (length urls) sched \<longrightarrow>
        (\<exists>rs c'. processURLs envs sched urls c = Some (rs, c') \<and> length rs = length urls))"
  using results_le [of envs urls sched c] fair_results [of urls sched envs c]
  by (auto simp: processURLs_def Let_def)

theorem processURLs_cardinality_witness:
  "fair (length [''a'', ''b'']) [(0, 0), (1, 0), (0, 0), (1, 0), (0, 0), (1, 0)]
   \<and> (\<exists>rs c'. processURLs (\<lambda>i. \<lparr>ctxDone = (i = 0), network = DoFails\<rparr>)
                 [(0, 0), (1, 0), (0, 0), (1, 0), (0, 0), (1, 0)] [''a'', ''b''] Map.empty
                 = Some (rs, c')
              \<and> length rs = length [''a'', ''b''])"
proof -
  have h: "fair (length [''a'', ''b'']) [(0, 0), (1, 0), (0, 0), (1, 0), (0, 0), (1, 0)]"
    by code_simp
  from processURLs_cardinality
         [where envs = "\<lambda>i. \<lparr>ctxDone = (i = 0), network = DoFails\<rparr>"
            and sched = "[(0, 0), (1, 0), (0, 0), (1, 0), (0, 0), (1, 0)]"
            and urls = "[''a'', ''b'']" and c = Map.empty] h
  show ?thesis by blast
qed

lemma run_sent_le:
  "list_all (\<lambda>g. length (sent g) \<le> 1) (goroutines (run envs urls sched (spawn urls c)))"
proof -
  have "Inv (length urls) (run envs urls sched (spawn urls c))"
    using Inv_spawn by (rule Inv_run)
  then show ?thesis using wfg_sent_le by (auto simp: Inv_def list_all_iff)
qed

lemma goroutineStep_fresh:
  assumes "\<not> failing e" and "P (freshResult e)" and "ok P g"
    and "goroutineStep e t u recv g c = (g', c', out)"
  shows "ok P g'"
  using assms
  by (cases "pc g"; cases "network e")
     (auto simp: ok_def goroutineStep_def getResponseFromURL_def makeGetRequestForURL_def
       failing_def freshResult_def split: if_splits)

lemma goroutineStep_fallback:
  assumes "failing e" and "P (cachedResult t u c)" and "ok P g" and "noWrite g"
    and "goroutineStep e t u recv g c = (g', c', out)"
  shows "c' = c \<and> ok P g' \<and> noWrite g'"
  using assms
  by (cases "pc g"; cases "network e")
     (auto simp: ok_def noWrite_def goroutineStep_def getResponseFromURL_def
       makeGetRequestForURL_def failing_def split: if_splits)

lemma step_invariant:
  assumes loc: "\<And>i g c recv g' c' out. i < length urls \<Longrightarrow> Q c \<Longrightarrow> G i g \<Longrightarrow>
        goroutineStep (envs i) (snd a) (urls ! i) recv g c = (g', c', out) \<Longrightarrow> Q c' \<and> G i g'"
    and len: "length (goroutines s) = length urls"
    and Q: "Q (serverCache s)"
    and G: "\<forall>i<length urls. G i (goroutines s ! i)"
  shows "Q (serverCache (step envs urls a s))
         \<and> (\<forall>i<length urls. G i (goroutines (step envs urls a s) ! i))"
proof -
  obtain i now where a: "a = (i, now)" by (cases a)
  show ?thesis
  proof (cases "i < length (goroutines s)")
    case False
    with a Q G show ?thesis by (simp add: step_def)
  next
    case True
    obtain g' c' out where gs:
      "goroutineStep (envs i) now (urls ! i) (length (results s) < length urls)
         (goroutines s ! i) (serverCache s) = (g', c', out)"
      by (metis prod_cases3)
    have s': "step envs urls a s =
        \<lparr>serverCache = c', goroutines = (goroutines s)[i := g'], results = results s @ out\<rparr>"
      using a True gs by (simp add: step_def)
    have i: "i < length urls" using True len by simp
    have "Q c' \<and> G i g'"
      using loc [OF i Q, of "goroutines s ! i"] G i gs a by simp
    then show ?thesis using s' G True by (auto simp: nth_list_update)
  qed
qed

lemma run_invariant:
  assumes loc: "\<And>i t g c recv g' c' out. i < length urls \<Longrightarrow> t \<in> snd ` set sched \<Longrightarrow>
        Q c \<Longrightarrow> G i g \<Longrightarrow>
        goroutineStep (envs i) t (urls ! i) recv g c = (g', c', out) \<Longrightarrow> Q c' \<and> G i g'"
    and len: "length (goroutines s) = length urls"
    and Q: "Q (serverCache s)"
    and G: "\<forall>i<length urls. G i (goroutines s ! i)"
  shows "Q (serverCache (run envs urls sched s))
         \<and> (\<forall>i<length urls. G i (goroutines (run envs urls sched s) ! i))"
  using assms
proof (induction sched arbitrary: s)
  case Nil
  then show ?case by simp
next
  case (Cons a sched)
  have st: "Q (serverCache (step envs urls a s))
         \<and> (\<forall>i<length urls. G i (goroutines (step envs urls a s) ! i))"
    by (rule step_invariant [where Q = Q and G = G, OF _ Cons.prems(2,3,4)])
       (rule Cons.prems(1), simp_all)
  have "Q (serverCache (run envs urls sched (step envs urls a s)))
         \<and> (\<forall>i<length urls. G i (goroutines (run envs urls sched (step envs urls a s)) ! i))"
  proof (rule Cons.IH)
    show "Q c' \<and> G i g'"
      if "i < length urls" "t \<in> snd ` set sched" "Q c" "G i g"
        "goroutineStep (envs i) t (urls ! i) recv g c = (g', c', out)"
      for i t g c recv g' c' out
      using Cons.prems(1) [of i t c g recv g' c' out] that by simp
  qed (use st Cons.prems(2) in simp_all)
  then show ?case by simp
qed

lemma ok_spawn: "\<forall>i<length urls. ok P (goroutines (spawn urls c) ! i)"
  by (simp add: spawn_def ok_def newGoroutine_def)

lemma noWrite_spawn: "\<forall>i<length urls. noWrite (goroutines (spawn urls c) ! i)"
  by (simp add: spawn_def noWrite_def newGoroutine_def)

lemma spawn_simps [simp]:
  "length (goroutines (spawn urls c)) = length urls" "serverCache (spawn urls c) = c"
  by (simp_all add: spawn_def)

lemma run_length [simp]:
  "length (goroutines (run envs urls sched s)) = length (goroutines s)"
  by (induction sched arbitrary: s) simp_all

lemma delivered_singletons:
  assumes "\<forall>i<length gs. sent (gs ! i) = [f i]"
  shows "delivered gs = map f [0..<length gs]"
proof -
  have "map sent gs = map (\<lambda>i. [f i]) [0..<length gs]"
    using assms by (intro nth_equalityI) simp_all
  then show ?thesis by (simp add: delivered_def)
qed

lemma fair_results_mset:
  "fair (length urls) sched \<Longrightarrow>
   mset (results (run envs urls sched (spawn urls c)))
     = mset (delivered (goroutines (run envs urls sched (spawn urls c))))
   \<and> length (results (run envs urls sched (spawn urls c))) = length urls
   \<and> (\<forall>i<length urls. pc (goroutines (run envs urls sched (spawn urls c)) ! i) = Done)"
proof -
  assume fair: "fair (length urls) sched"
  have "Inv (length urls) (run envs urls sched (spawn urls c))"
    using Inv_spawn by (rule Inv_run)
  with fair_all_done [OF fair, where envs = envs and c = c]
    fair_results [OF fair, where envs = envs and c = c]
  show ?thesis by (simp add: Inv_def list_all_length)
qed

lemma numbersOf_mset: "mset res = mset res' \<Longrightarrow> set (numbersOf res) = set (numbersOf res')"
proof -
  assume "mset res = mset res'"
  then have "set res = set res'" by (rule mset_eq_setD)
  then show ?thesis by (simp add: numbersOf_def)
qed

lemma processFinalResult_mset:
  "mset res = mset res' \<Longrightarrow> processFinalResult res = processFinalResult res'"
  by (simp add: processFinalResult_unique numbersOf_mset [of res res'])

lemma all_fresh_results:
  assumes nf: "list_all (\<lambda>i. \<not> failing (envs i)) [0..<length urls]"
    and fair: "fair (length urls) sched"
  shows "mset (results (run envs urls sched (spawn urls c)))
           = mset (map (\<lambda>i. freshResult (envs i)) [0..<length urls])"
proof -
  let ?s = "run envs urls sched (spawn urls c)"
  have inv: "True \<and> (\<forall>i<length urls. ok (\<lambda>r. r = freshResult (envs i)) (goroutines ?s ! i))"
  proof (rule run_invariant [where Q = "\<lambda>_. True"])
    show "True \<and> ok (\<lambda>r. r = freshResult (envs i)) g'"
      if "i < length urls" "ok (\<lambda>r. r = freshResult (envs i)) g"
        "goroutineStep (envs i) t (urls ! i) recv g c = (g', c', out)"
      for i t g c recv g' c' out
      using goroutineStep_fresh [OF _ _ that(2,3)] nf that(1) by (simp add: list_all_iff)
  qed (simp_all add: ok_spawn)
  note fr = fair_results_mset [OF fair, where envs = envs and c = c]
  have "sent (goroutines ?s ! i) = [freshResult (envs i)]" if "i < length urls" for i
    using inv fr that by (auto simp: ok_def length_Suc_conv)
  then have "delivered (goroutines ?s) = map (\<lambda>i. freshResult (envs i)) [0..<length urls]"
    using delivered_singletons [of "goroutines ?s" "\<lambda>i. freshResult (envs i)"] by simp
  with fr show ?thesis by simp
qed

lemma all_fallback_results:
  assumes fl: "list_all (\<lambda>i. failing (envs i)) [0..<length urls]"
    and P: "\<And>i t. i < length urls \<Longrightarrow> t \<in> snd ` set sched \<Longrightarrow> P i (cachedResult t (urls ! i) c)"
    and fair: "fair (length urls) sched"
  shows "serverCache (run envs urls sched (spawn urls c)) = c
         \<and> (\<forall>i<length urls. \<exists>r. sent (goroutines (run envs urls sched (spawn urls c)) ! i) = [r]
                \<and> P i r)"
proof -
  let ?s = "run envs urls sched (spawn urls c)"
  have inv: "serverCache ?s = c
      \<and> (\<forall>i<length urls. ok (P i) (goroutines ?s ! i) \<and> noWrite (goroutines ?s ! i))"
  proof (rule run_invariant [where Q = "\<lambda>x. x = c"])
    show "c' = c \<and> ok (P i) g' \<and> noWrite g'"
      if "i < length urls" "t \<in> snd ` set sched" "c0 = c" "ok (P i) g \<and> noWrite g"
        "goroutineStep (envs i) t (urls ! i) recv g c0 = (g', c', out)"
      for i t g c0 recv g' c' out
      using goroutineStep_fallback [of "envs i" "P i" t "urls ! i" c g recv g' c' out]
        fl that P [OF that(1,2)] by (simp add: list_all_iff)
  qed (simp_all add: ok_spawn noWrite_spawn)
  note fr = fair_results_mset [OF fair, where envs = envs and c = c]
  have "\<exists>r. sent (goroutines ?s ! i) = [r] \<and> P i r" if "i < length urls" for i
    using inv fr that by (auto simp: ok_def length_Suc_conv)
  with inv show ?thesis by simp
qed

lemma fair_processURLs:
  assumes "fair (length urls) sched"
  shows "processURLs envs sched urls c
           = Some (results (run envs urls sched (spawn urls c)),
                   serverCache (run envs urls sched (spawn urls c)))"
  using fair_results [OF assms, where envs = envs and c = c]
  by (simp add: processURLs_def Let_def)

text \<open>
  C8. \<open>processFinalResult\<close> gives the same output on every reordering of its input.
  When every fetch succeeds, the aggregation returns under every fair schedule, and its
  output is the same for any two of them, whatever the cache held before either call.
\<close>

theorem aggregate_order_independent:
  "(mset res = mset res' \<longrightarrow> processFinalResult res = processFinalResult res')
   \<and> (list_all (\<lambda>i. \<not> failing (envs i)) [0..<length urls]
        \<and> fair (length urls) sched \<and> fair (length urls) sched' \<longrightarrow>
        (\<exists>out c1 c2. aggregate envs sched urls c = Some (out, c1)
                    \<and> aggregate envs sched' urls c' = Some (out, c2)))"
proof (intro conjI impI)
  assume "mset res = mset res'"
  then show "processFinalResult res = processFinalResult res'"
    by (rule processFinalResult_mset)
next
  assume h: "list_all (\<lambda>i. \<not> failing (envs i)) [0..<length urls]
        \<and> fair (length urls) sched \<and> fair (length urls) sched'"
  then have nf: "list_all (\<lambda>i. \<not> failing (envs i)) [0..<length urls]"
    and f1: "fair (length urls) sched" and f2: "fair (length urls) sched'" by simp_all
  have "mset (results (run envs urls sched (spawn urls c)))
      = mset (results (run envs urls sched' (spawn urls c')))"
    using all_fresh_results [OF nf f1, where c = c] all_fresh_results [OF nf f2, where c = c']
    by simp
  then have "processFinalResult (results (run envs urls sched (spawn urls c)))
      = processFinalResult (results (run envs urls sched' (spawn urls c')))"
    by (rule processFinalResult_mset)
  then show "\<exists>out c1 c2. aggregate envs sched urls c = Some (out, c1)
                    \<and> aggregate envs sched' urls c' = Some (out, c2)"
    by (simp add: aggregate_def fair_processURLs [OF f1] fair_processURLs [OF f2])
qed

lemma cacheEmptyFor_len: "cacheEmptyFor c url \<Longrightarrow> len (getResultFromCache t url c) = 0"
  by (auto simp: cacheEmptyFor_def getResultFromCache_def cache_Get_def len_def
      split: option.splits)

lemma numbersOf_empty:
  "\<forall>r\<in>set res. len (Numbers (data r)) = 0 \<Longrightarrow> numbersOf res = []"
  by (induction res) (simp_all add: numbersOf_def len_def)

lemma results_from_sent:
  assumes ms: "mset rs = mset (delivered gs)"
    and one: "\<forall>i<length gs. \<exists>r. sent (gs ! i) = [r] \<and> P r"
  shows "\<forall>r\<in>set rs. P r"
proof
  fix r assume "r \<in> set rs"
  then have "r \<in> set (delivered gs)" using ms by (metis mset_eq_setD)
  then obtain g where g: "g \<in> set gs" "r \<in> set (sent g)" by (auto simp: delivered_def)
  then obtain i where "i < length gs" "gs ! i = g" by (auto simp: in_set_conv_nth)
  with one g show "P r" by auto
qed

text \<open>
  C7. When every fetch fails and the cache has, for every requested source, no entry or
  an entry with no number, the aggregation returns under every fair schedule, its output is
  the empty non-nil slice, and the cache is as before.
\<close>

theorem all_fail_empty_aggregate:
  assumes fl: "list_all (\<lambda>i. failing (envs i)) [0..<length urls]"
    and em: "list_all (cacheEmptyFor c) urls"
    and fair: "fair (length urls) sched"
  shows "aggregate envs sched urls c = Some (Slice [], c)"
proof -
  let ?s = "run envs urls sched (spawn urls c)"
  have fb: "serverCache ?s = c
      \<and> (\<forall>i<length urls. \<exists>r. sent (goroutines ?s ! i) = [r] \<and> len (Numbers (data r)) = 0)"
  proof (rule all_fallback_results [OF fl _ fair])
    show "len (Numbers (data (cachedResult t (urls ! i) c))) = 0" if "i < length urls" for i t
      using em that by (simp add: cachedResult_def cacheEmptyFor_len list_all_length)
  qed
  have "\<forall>r\<in>set (results ?s). len (Numbers (data r)) = 0"
    using fair_results_mset [OF fair, where envs = envs and c = c] fb
    by (intro results_from_sent [where gs = "goroutines ?s"]) simp_all
  then have "numbersOf (results ?s) = []" by (rule numbersOf_empty)
  then have "processFinalResult (results ?s) = Slice []"
    by (simp add: processFinalResult_unique)
  with fb show ?thesis by (simp add: aggregate_def fair_processURLs [OF fair])
qed

lemma all_fallback_fixed:
  assumes fl: "list_all (\<lambda>i. failing (envs i)) [0..<length urls]"
    and P: "\<And>i t. i < length urls \<Longrightarrow> t \<in> snd ` set sched \<Longrightarrow> cachedResult t (urls ! i) c = f i"
    and fair: "fair (length urls) sched"
  shows "aggregate envs sched urls c = Some (processFinalResult (map f [0..<length urls]), c)"
proof -
  let ?s = "run envs urls sched (spawn urls c)"
  have fb: "serverCache ?s = c
      \<and> (\<forall>i<length urls. \<exists>r. sent (goroutines ?s ! i) = [r] \<and> r = f i)"
    by (rule all_fallback_results [OF fl _ fair]) (simp add: P)
  then have "delivered (goroutines ?s) = map f [0..<length urls]"
    using delivered_singletons [of "goroutines ?s" f] by simp
  then have "mset (results ?s) = mset (map f [0..<length urls])"
    using fair_results_mset [OF fair, where envs = envs and c = c] by simp
  then have "processFinalResult (results ?s) = processFinalResult (map f [0..<length urls])"
    by (rule processFinalResult_mset)
  with fb show ?thesis by (simp add: aggregate_def fair_processURLs [OF fair])
qed

lemma runAlone_delivers:
  "\<exists>r. pc (fst (runAlone e now url c)) = Done \<and> sent (fst (runAlone e now url c)) = [r]
       \<and> deliveredAlone e now url c = [r]"
  by (cases "network e")
     (auto simp: runAlone_def deliveredAlone_def goroutineStep_def getResponseFromURL_def
        makeGetRequestForURL_def newGoroutine_def)

lemma runAlone_failing:
  assumes "failing e"
  shows "runAlone e now url c =
          (\<lparr>pc = Done,
            netCalls = (if ctxDone e \<or> network e = NewRequestFails then 0 else 1),
            sent = [cachedResult now url c]\<rparr>, c)"
    and "deliveredAlone e now url c = [cachedResult now url c]"
    and "goroutineStep e now url recv newGoroutine c =
          (\<lparr>pc = Sending (cachedResult now url c),
            netCalls = (if ctxDone e \<or> network e = NewRequestFails then 0 else 1),
            sent = []\<rparr>, c, [])"
  using assms
  by (cases "network e";
      auto simp: runAlone_def deliveredAlone_def goroutineStep_def getResponseFromURL_def
        makeGetRequestForURL_def newGoroutine_def failing_def)+

lemma send_hands_over:
  "goroutineStep e now url True \<lparr>pc = Sending r, netCalls = n, sent = []\<rparr> c
     = (\<lparr>pc = Done, netCalls = n, sent = [r]\<rparr>, c, [r])"
  "goroutineStep e now url False \<lparr>pc = Sending r, netCalls = n, sent = []\<rparr> c
     = (\<lparr>pc = Sending r, netCalls = n, sent = []\<rparr>, c, [])"
  by (simp_all add: goroutineStep_def)

lemma run_results_delivered:
  "mset (results (run envs urls sched (spawn urls c)))
     = mset (delivered (goroutines (run envs urls sched (spawn urls c))))"
proof -
  have "Inv (length urls) (run envs urls sched (spawn urls c))"
    using Inv_spawn by (rule Inv_run)
  then show ?thesis by (simp add: Inv_def)
qed

lemma all_failing_processURLs:
  assumes fl: "list_all (\<lambda>i. failing (envs i)) [0..<length urls]"
    and fair: "fair (length urls) sched"
  shows "\<exists>rs. processURLs envs sched urls c = Some (rs, c) \<and> length rs = length urls
           \<and> list_all (\<lambda>r. list_ex (\<lambda>u. list_ex (\<lambda>(i, t). r = cachedResult t u c) sched) urls) rs"
proof -
  let ?s = "run envs urls sched (spawn urls c)"
  let ?P = "\<lambda>r. \<exists>u\<in>set urls. \<exists>t\<in>snd ` set sched. r = cachedResult t u c"
  have fb: "serverCache ?s = c
      \<and> (\<forall>i<length urls. \<exists>r. sent (goroutines ?s ! i) = [r] \<and> ?P r)"
  proof (rule all_fallback_results [where P = "\<lambda>i. ?P", OF fl _ fair])
    show "?P (cachedResult t (urls ! i) c)" if "i < length urls" "t \<in> snd ` set sched" for i t
      using that by (auto intro!: bexI [where x = "urls ! i"])
  qed
  have "\<forall>r\<in>set (results ?s). ?P r"
    using fair_results_mset [OF fair, where envs = envs and c = c] fb
    by (intro results_from_sent [where gs = "goroutines ?s"]) simp_all
  then have "list_all (\<lambda>r. list_ex (\<lambda>u. list_ex (\<lambda>(i, t). r = cachedResult t u c) sched) urls)
      (results ?s)"
    by (fastforce simp: list_all_iff list_ex_iff)
  with fb fair_results [OF fair, where envs = envs and c = c] show ?thesis
    by (simp add: fair_processURLs [OF fair])
qed

lemma single_failing_processURLs:
  assumes fl: "failing (envs 0)" and fair: "fair (length [url]) sched"
  shows "list_ex (\<lambda>(i, t). processURLs envs sched [url] c = Some ([cachedResult t url c], c))
           sched"
proof -
  have "list_all (\<lambda>i. failing (envs i)) [0..<length [url]]" using fl by simp
  from all_failing_processURLs [OF this fair, where c = c]
  obtain rs where rs: "processURLs envs sched [url] c = Some (rs, c)" "length rs = 1"
    "list_all (\<lambda>r. list_ex (\<lambda>u. list_ex (\<lambda>(i, t). r = cachedResult t u c) sched) [url]) rs"
    by auto
  from rs(2) obtain r where r: "rs = [r]" by (cases rs) auto
  with rs(3) have "list_ex (\<lambda>(i, t). r = cachedResult t url c) sched" by simp
  with rs(1) r show ?thesis by (auto simp: list_ex_iff)
qed

text \<open>
  C3. A fetch run to its end hands exactly one result over on the channel, in every
  environment: a goroutine that is sending completes the send while \<open>processURLs\<close>
  receives, and the result it hands over is the one it records as sent. When the request
  cannot be built, the transport fails, the deadline elapses or the body cannot be decoded,
  that result is the cached value for the source, read at the time of the fallback, and the
  cache is left as it was; the first step of such a fetch does this whatever the cache holds
  at that moment. Inside \<open>processURLs\<close>, under every schedule, no goroutine delivers more
  than one result and the results received are exactly the results the goroutines have
  delivered; under a fair schedule each goroutine has delivered exactly one and ended, and
  \<open>processURLs\<close> returns these. When every fetch fails, \<open>processURLs\<close> returns with the
  cache unchanged and every result it returns is the cached value of a requested source at
  a time of the schedule; for a single failing fetch it returns exactly that one value.
\<close>

theorem fetch_failure_falls_back:
  "(\<exists>r. pc (fst (runAlone e now url c)) = Done \<and> sent (fst (runAlone e now url c)) = [r]
        \<and> deliveredAlone e now url c = [r])
   \<and> (failing e \<longrightarrow>
        runAlone e now url c =
          (\<lparr>pc = Done,
            netCalls = (if ctxDone e \<or> network e = NewRequestFails then 0 else 1),
            sent = [cachedResult now url c]\<rparr>, c)
        \<and> goroutineStep e now url recv newGoroutine c =
          (\<lparr>pc = Sending (cachedResult now url c),
            netCalls = (if ctxDone e \<or> network e = NewRequestFails then 0 else 1),
            sent = []\<rparr>, c, [])
        \<and> deliveredAlone e now url c = [cachedResult now url c])
   \<and> goroutineStep e now url True \<lparr>pc = Sending r0, netCalls = n, sent = []\<rparr> c
        = (\<lparr>pc = Done, netCalls = n, sent = [r0]\<rparr>, c, [r0])
   \<and> list_all (\<lambda>g. length (sent g) \<le> 1) (goroutines (run envs urls sched (spawn urls c0)))
   \<and> mset (results (run envs urls sched (spawn urls c0)))
        = mset (delivered (goroutines (run envs urls sched (spawn urls c0))))
   \<and> (fair (length urls) sched \<longrightarrow>
        list_all (\<lambda>g. pc g = Done \<and> length (sent g) = 1)
          (goroutines (run envs urls sched (spawn urls c0)))
        \<and> (\<exists>rs c'. processURLs envs sched urls c0 = Some (rs, c')
              \<and> length rs = length urls
              \<and> mset rs = mset (delivered (goroutines (run envs urls sched (spawn urls c0))))))
   \<and> (list_all (\<lambda>i. failing (envs i)) [0..<length urls] \<and> fair (length urls) sched \<longrightarrow>
        (\<exists>rs. processURLs envs sched urls c0 = Some (rs, c0) \<and> length rs = length urls
           \<and> list_all (\<lambda>r. list_ex (\<lambda>u. list_ex (\<lambda>(i, t). r = cachedResult t u c0) sched) urls)
                rs))
   \<and> (failing (envs 0) \<and> fair (length [url]) sched \<longrightarrow>
        list_ex (\<lambda>(i, t). processURLs envs sched [url] c = Some ([cachedResult t url c], c))
          sched)"
proof (intro conjI impI)
  show "\<exists>r. pc (fst (runAlone e now url c)) = Done \<and> sent (fst (runAlone e now url c)) = [r]
        \<and> deliveredAlone e now url c = [r]"
    by (rule runAlone_delivers)
next
  assume "failing e"
  then show "runAlone e now url c =
          (\<lparr>pc = Done,
            netCalls = (if ctxDone e \<or> network e = NewRequestFails then 0 else 1),
            sent = [cachedResult now url c]\<rparr>, c)"
    by (rule runAlone_failing)
next
  assume "failing e"
  then show "goroutineStep e now url recv newGoroutine c =
          (\<lparr>pc = Sending (cachedResult now url c),
            netCalls = (if ctxDone e \<or> network e = NewRequestFails then 0 else 1),
            sent = []\<rparr>, c, [])"
    by (rule runAlone_failing)
next
  assume "failing e"
  then show "deliveredAlone e now url c = [cachedResult now url c]"
    by (rule runAlone_failing)
next
  show "goroutineStep e now url True \<lparr>pc = Sending r0, netCalls = n, sent = []\<rparr> c
        = (\<lparr>pc = Done, netCalls = n, sent = [r0]\<rparr>, c, [r0])"
    by (rule send_hands_over)
next
  show "list_all (\<lambda>g. length (sent g) \<le> 1) (goroutines (run envs urls sched (spawn urls c0)))"
    by (rule run_sent_le)
next
  show "mset (results (run envs urls sched (spawn urls c0)))
        = mset (delivered (goroutines (run envs urls sched (spawn urls c0))))"
    by (rule run_results_delivered)
next
  assume "fair (length urls) sched"
  from fair_all_done [OF this, where envs = envs and c = c0]
  show "list_all (\<lambda>g. pc g = Done \<and> length (sent g) = 1)
          (goroutines (run envs urls sched (spawn urls c0)))"
    by (auto simp: list_all_iff wfg_def)
next
  assume f: "fair (length urls) sched"
  show "\<exists>rs c'. processURLs envs sched urls c0 = Some (rs, c')
              \<and> length rs = length urls
              \<and> mset rs = mset (delivered (goroutines (run envs urls sched (spawn urls c0))))"
    using fair_results [OF f, where envs = envs and c = c0]
      run_results_delivered [of envs urls sched c0]
    by (simp add: fair_processURLs [OF f])
next
  assume "list_all (\<lambda>i. failing (envs i)) [0..<length urls] \<and> fair (length urls) sched"
  then show "\<exists>rs. processURLs envs sched urls c0 = Some (rs, c0) \<and> length rs = length urls
           \<and> list_all (\<lambda>r. list_ex (\<lambda>u. list_ex (\<lambda>(i, t). r = cachedResult t u c0) sched) urls)
                rs"
    using all_failing_processURLs [of envs urls sched c0] by simp
next
  assume "failing (envs 0) \<and> fair (length [url]) sched"
  then show "list_ex (\<lambda>(i, t). processURLs envs sched [url] c = Some ([cachedResult t url c], c))
          sched"
    using single_failing_processURLs [of envs url sched c] by simp
qed

theorem fetch_failure_falls_back_witness:
  "failing \<lparr>ctxDone = False, network = DecodeFails\<rparr>
   \<and> runAlone \<lparr>ctxDone = False, network = DecodeFails\<rparr> 5 ''u''
        [''u'' \<mapsto> \<lparr>Object = IntSlice (Slice [4]), Expiration = 9\<rparr>]
      = (\<lparr>pc = Done, netCalls = 1, sent = [\<lparr>data = \<lparr>Numbers = Slice [4]\<rparr>\<rparr>]\<rparr>,
         [''u'' \<mapsto> \<lparr>Object = IntSlice (Slice [4]), Expiration = 9\<rparr>])
   \<and> deliveredAlone \<lparr>ctxDone = False, network = DecodeFails\<rparr> 5 ''u''
        [''u'' \<mapsto> \<lparr>Object = IntSlice (Slice [4]), Expiration = 9\<rparr>]
      = [\<lparr>data = \<lparr>Numbers = Slice [4]\<rparr>\<rparr>]
   \<and> fair (length [''u'']) [(0, 5), (0, 5), (0, 5)]
   \<and> list_all (\<lambda>g. pc g = Done \<and> length (sent g) = 1)
        (goroutines (run (\<lambda>i. \<lparr>ctxDone = False, network = DecodeFails\<rparr>) [''u'']
           [(0, 5), (0, 5), (0, 5)] (spawn [''u''] Map.empty)))
   \<and> processURLs (\<lambda>i. \<lparr>ctxDone = False, network = DecodeFails\<rparr>) [(0, 5), (0, 5), (0, 5)]
        [''u''] [''u'' \<mapsto> \<lparr>Object = IntSlice (Slice [4]), Expiration = 9\<rparr>]
      = Some ([\<lparr>data = \<lparr>Numbers = Slice [4]\<rparr>\<rparr>],
              [''u'' \<mapsto> \<lparr>Object = IntSlice (Slice [4]), Expiration = 9\<rparr>])"
proof -
  have f: "failing \<lparr>ctxDone = False, network = DecodeFails\<rparr>" by (simp add: failing_def)
  have h: "fair (length [''u'']) [(0, 5), (0, 5), (0, 5)]" by code_simp
  have v: "cachedResult 5 ''u'' [''u'' \<mapsto> \<lparr>Object = IntSlice (Slice [4]), Expiration = 9\<rparr>]
      = \<lparr>data = \<lparr>Numbers = Slice [4]\<rparr>\<rparr>"
    by (simp add: cachedResult_def getResultFromCache_def cache_Get_def)
  from fetch_failure_falls_back
         [where e = "\<lparr>ctxDone = False, network = DecodeFails\<rparr>" and now = 5 and url = "''u''"
            and c = "[''u'' \<mapsto> \<lparr>Object = IntSlice (Slice [4]), Expiration = 9\<rparr>]"
            and urls = "[''u'']" and sched = "[(0, 5), (0, 5), (0, 5)]"
            and envs = "\<lambda>i. \<lparr>ctxDone = False, network = DecodeFails\<rparr>" and ?c0.0 = Map.empty]
       f h v
  show ?thesis by simp
qed

text \<open>
  C4. A fetch that finds the context done makes no call of \<open>client.Do\<close> and delivers
  exactly the cached value for its source, \<open>nil\<close> when the cache misses, leaving the cache
  as it was. With both contexts done and a cache that yields \<open>{1,5}\<close> for one source and
  \<open>{6,9}\<close> for the other at every time of the schedule, the aggregation over the two
  returns \<open>[1,5,6,9]\<close> under every fair schedule.
\<close>

theorem expired_deadline_uses_cache:
  "(ctxDone e \<longrightarrow>
      runAlone e now url c = (\<lparr>pc = Done, netCalls = 0, sent = [cachedResult now url c]\<rparr>, c)
      \<and> goroutineStep e now url recv newGoroutine c
          = (\<lparr>pc = Sending (cachedResult now url c), netCalls = 0, sent = []\<rparr>, c, []))
   \<and> (cache_Get now url c = None \<longrightarrow> cachedResult now url c = \<lparr>data = \<lparr>Numbers = NilSlice\<rparr>\<rparr>)
   \<and> (ctxDone (envs 0) \<and> ctxDone (envs 1) \<and> fair 2 sched
        \<and> list_all (\<lambda>(i, t). getResultFromCache t a c = Slice [1, 5]
                           \<and> getResultFromCache t b c = Slice [6, 9]) sched \<longrightarrow>
        aggregate envs sched [a, b] c = Some (Slice [1, 5, 6, 9], c))"
proof (intro conjI impI)
  assume "ctxDone e"
  then show "runAlone e now url c
      = (\<lparr>pc = Done, netCalls = 0, sent = [cachedResult now url c]\<rparr>, c)"
    by (simp add: runAlone_def goroutineStep_def getResponseFromURL_def newGoroutine_def)
next
  assume "ctxDone e"
  then show "goroutineStep e now url recv newGoroutine c
          = (\<lparr>pc = Sending (cachedResult now url c), netCalls = 0, sent = []\<rparr>, c, [])"
    by (simp add: goroutineStep_def getResponseFromURL_def newGoroutine_def)
next
  assume "cache_Get now url c = None"
  then show "cachedResult now url c = \<lparr>data = \<lparr>Numbers = NilSlice\<rparr>\<rparr>"
    by (simp add: cachedResult_def getResultFromCache_def)
next
  let ?f = "\<lambda>i. [\<lparr>data = \<lparr>Numbers = Slice [1, 5]\<rparr>\<rparr>, \<lparr>data = \<lparr>Numbers = Slice [6, 9]\<rparr>\<rparr>] ! i"
  assume h: "ctxDone (envs 0) \<and> ctxDone (envs 1) \<and> fair 2 sched
        \<and> list_all (\<lambda>(i, t). getResultFromCache t a c = Slice [1, 5]
                           \<and> getResultFromCache t b c = Slice [6, 9]) sched"
  have fl: "list_all (\<lambda>i. failing (envs i)) [0..<length [a, b]]"
    using h by (simp add: failing_def upt_rec)
  have fair: "fair (length [a, b]) sched" using h by (simp add: numeral_2_eq_2)
  have "aggregate envs sched [a, b] c
      = Some (processFinalResult (map ?f [0..<length [a, b]]), c)"
  proof (rule all_fallback_fixed [OF fl _ fair])
    show "cachedResult t ([a, b] ! i) c = ?f i"
      if "i < length [a, b]" "t \<in> snd ` set sched" for i t
    proof -
      from that(2) obtain j where "(j, t) \<in> set sched" by auto
      with h have "getResultFromCache t a c = Slice [1, 5]
          \<and> getResultFromCache t b c = Slice [6, 9]"
        by (auto simp: list_all_iff)
      moreover have "i = 0 \<or> i = 1" using that(1) by auto
      ultimately show ?thesis by (auto simp: cachedResult_def)
    qed
  qed
  moreover have "processFinalResult (map ?f [0..<length [a, b]]) = Slice [1, 5, 6, 9]"
    by (simp add: upt_rec processFinalResult_def sort_Ints_def)
  ultimately show "aggregate envs sched [a, b] c = Some (Slice [1, 5, 6, 9], c)" by simp
qed

theorem expired_deadline_uses_cache_witness:
  "ctxDone \<lparr>ctxDone = True, network = DoFails\<rparr>
   \<and> fair 2 [(0, 1), (1, 1), (0, 2), (1, 2), (1, 3), (0, 3)]
   \<and> list_all (\<lambda>(i, t).
         getResultFromCache t ''a''
           (updateCache 0 ''b'' (Slice [6, 9]) (updateCache 0 ''a'' (Slice [1, 5]) Map.empty))
           = Slice [1, 5]
         \<and> getResultFromCache t ''b''
           (updateCache 0 ''b'' (Slice [6, 9]) (updateCache 0 ''a'' (Slice [1, 5]) Map.empty))
           = Slice [6, 9])
       [(0, 1), (1, 1), (0, 2), (1, 2), (1, 3), (0, 3)]
   \<and> aggregate (\<lambda>i. \<lparr>ctxDone = True, network = DoFails\<rparr>)
        [(0, 1), (1, 1), (0, 2), (1, 2), (1, 3), (0, 3)] [''a'', ''b'']
        (updateCache 0 ''b'' (Slice [6, 9]) (updateCache 0 ''a'' (Slice [1, 5]) Map.empty))
      = Some (Slice [1, 5, 6, 9],
          updateCache 0 ''b'' (Slice [6, 9]) (updateCache 0 ''a'' (Slice [1, 5]) Map.empty))"
proof -
  have d: "ctxDone \<lparr>ctxDone = True, network = DoFails\<rparr>" by simp
  have f: "fair 2 [(0, 1), (1, 1), (0, 2), (1, 2), (1, 3), (0, 3)]" by code_simp
  have v: "list_all (\<lambda>(i, t).
         getResultFromCache t ''a''
           (updateCache 0 ''b'' (Slice [6, 9]) (updateCache 0 ''a'' (Slice [1, 5]) Map.empty))
           = Slice [1, 5]
         \<and> getResultFromCache t ''b''
           (updateCache 0 ''b'' (Slice [6, 9]) (updateCache 0 ''a'' (Slice [1, 5]) Map.empty))
           = Slice [6, 9])
       [(0, 1), (1, 1), (0, 2), (1, 2), (1, 3), (0, 3)]"
    by (simp add: updateCache_eq getResultFromCache_def cache_Get_def cacheExpiration_def)
  from expired_deadline_uses_cache
         [where envs = "\<lambda>i. \<lparr>ctxDone = True, network = DoFails\<rparr>"
            and sched = "[(0, 1), (1, 1), (0, 2), (1, 2), (1, 3), (0, 3)]"
            and a = "''a''" and b = "''b''"
            and c = "updateCache 0 ''b'' (Slice [6, 9])
                       (updateCache 0 ''a'' (Slice [1, 5]) Map.empty)"]
       d f v
  show ?thesis by simp
qed

theorem all_fail_empty_aggregate_witness:
  "list_all (\<lambda>i. failing ((\<lambda>i. \<lparr>ctxDone = (i = 0), network = DoFails\<rparr>) i))
     [0..<length [''a'', ''b'']]
   \<and> list_all (cacheEmptyFor [''a'' \<mapsto> \<lparr>Object = IntSlice (Slice []), Expiration = 0\<rparr>])
       [''a'', ''b'']
   \<and> fair (length [''a'', ''b'']) [(1, 4), (0, 4), (1, 5), (0, 5), (1, 6), (0, 6)]
   \<and> aggregate (\<lambda>i. \<lparr>ctxDone = (i = 0), network = DoFails\<rparr>)
        [(1, 4), (0, 4), (1, 5), (0, 5), (1, 6), (0, 6)] [''a'', ''b'']
        [''a'' \<mapsto> \<lparr>Object = IntSlice (Slice []), Expiration = 0\<rparr>]
      = Some (Slice [], [''a'' \<mapsto> \<lparr>Object = IntSlice (Slice []), Expiration = 0\<rparr>])"
proof -
  have a: "list_all (\<lambda>i. failing ((\<lambda>i. \<lparr>ctxDone = (i = 0), network = DoFails\<rparr>) i))
     [0..<length [''a'', ''b'']]"
    by (simp add: failing_def)
  have b: "list_all (cacheEmptyFor [''a'' \<mapsto> \<lparr>Object = IntSlice (Slice []), Expiration = 0\<rparr>])
       [''a'', ''b'']"
    by (simp add: cacheEmptyFor_def len_def)
  have f: "fair (length [''a'', ''b'']) [(1, 4), (0, 4), (1, 5), (0, 5), (1, 6), (0, 6)]"
    by code_simp
  from all_fail_empty_aggregate [OF a b f] a b f show ?thesis by simp
qed

theorem aggregate_order_independent_witness:
  "mset [\<lparr>data = \<lparr>Numbers = Slice [1, 5]\<rparr>\<rparr>, \<lparr>data = \<lparr>Numbers = Slice [1, 2, 7]\<rparr>\<rparr>]
     = mset [\<lparr>data = \<lparr>Numbers = Slice [1, 2, 7]\<rparr>\<rparr>, \<lparr>data = \<lparr>Numbers = Slice [1, 5]\<rparr>\<rparr>]
   \<and> processFinalResult [\<lparr>data = \<lparr>Numbers = Slice [1, 5]\<rparr>\<rparr>, \<lparr>data = \<lparr>Numbers = Slice [1, 2, 7]\<rparr>\<rparr>]
     = processFinalResult [\<lparr>data = \<lparr>Numbers = Slice [1, 2, 7]\<rparr>\<rparr>, \<lparr>data = \<lparr>Numbers = Slice [1, 5]\<rparr>\<rparr>]
   \<and> list_all (\<lambda>i. \<not> failing \<lparr>ctxDone = False,
                    network = Decodes \<lparr>Numbers = Slice (if i = 0 then [1, 2, 7] else [1, 5])\<rparr>\<rparr>)
       [0..<length [''a'', ''b'']]
   \<and> fair (length [''a'', ''b'']) [(0, 1), (0, 1), (0, 1), (1, 1), (1, 1), (1, 1)]
   \<and> fair (length [''a'', ''b'']) [(1, 2), (0, 2), (1, 2), (0, 2), (1, 2), (0, 2)]
   \<and> (\<exists>out c1 c2.
        aggregate (\<lambda>i. \<lparr>ctxDone = False,
                     network = Decodes \<lparr>Numbers = Slice (if i = 0 then [1, 2, 7] else [1, 5])\<rparr>\<rparr>)
          [(0, 1), (0, 1), (0, 1), (1, 1), (1, 1), (1, 1)] [''a'', ''b''] Map.empty
          = Some (out, c1)
        \<and> aggregate (\<lambda>i. \<lparr>ctxDone = False,
                     network = Decodes \<lparr>Numbers = Slice (if i = 0 then [1, 2, 7] else [1, 5])\<rparr>\<rparr>)
          [(1, 2), (0, 2), (1, 2), (0, 2), (1, 2), (0, 2)] [''a'', ''b'']
          [''a'' \<mapsto> \<lparr>Object = OtherValue, Expiration = 0\<rparr>]
          = Some (out, c2))"
proof -
  have m: "mset [\<lparr>data = \<lparr>Numbers = Slice [1, 5]\<rparr>\<rparr>, \<lparr>data = \<lparr>Numbers = Slice [1, 2, 7]\<rparr>\<rparr>]
     = mset [\<lparr>data = \<lparr>Numbers = Slice [1, 2, 7]\<rparr>\<rparr>, \<lparr>data = \<lparr>Numbers = Slice [1, 5]\<rparr>\<rparr>]"
    by simp
  have n: "list_all (\<lambda>i. \<not> failing \<lparr>ctxDone = False,
                    network = Decodes \<lparr>Numbers = Slice (if i = 0 then [1, 2, 7] else [1, 5])\<rparr>\<rparr>)
       [0..<length [''a'', ''b'']]"
    by (simp add: failing_def list_all_iff)
  have f1: "fair (length [''a'', ''b'']) [(0, 1), (0, 1), (0, 1), (1, 1), (1, 1), (1, 1)]"
    by code_simp
  have f2: "fair (length [''a'', ''b'']) [(1, 2), (0, 2), (1, 2), (0, 2), (1, 2), (0, 2)]"
    by code_simp
  from aggregate_order_independent
         [where res = "[\<lparr>data = \<lparr>Numbers = Slice [1, 5]\<rparr>\<rparr>, \<lparr>data = \<lparr>Numbers = Slice [1, 2, 7]\<rparr>\<rparr>]"
            and res' = "[\<lparr>data = \<lparr>Numbers = Slice [1, 2, 7]\<rparr>\<rparr>, \<lparr>data = \<lparr>Numbers = Slice [1, 5]\<rparr>\<rparr>]"
            and envs = "\<lambda>i. \<lparr>ctxDone = False,
                     network = Decodes \<lparr>Numbers = Slice (if i = 0 then [1, 2, 7] else [1, 5])\<rparr>\<rparr>"
            and urls = "[''a'', ''b'']"
            and sched = "[(0, 1), (0, 1), (0, 1), (1, 1), (1, 1), (1, 1)]"
            and sched' = "[(1, 2), (0, 2), (1, 2), (0, 2), (1, 2), (0, 2)]"
            and c = Map.empty and c' = "[''a'' \<mapsto> \<lparr>Object = OtherValue, Expiration = 0\<rparr>]"]
       m n f1 f2
  show ?thesis by blast
qed

text \<open>
  C9. \<open>updateCache\<close> is two operations of the cache, each atomic on its own, and another
  goroutine can run between them. Two fetches of the same source \<open>s\<close>, the cache holding
  \<open>{1,5}\<close> for it: the first succeeds with \<open>{2}\<close>, the second fails in transport. When the
  second reads the cache after the first's \<open>Delete\<close> and before its \<open>Add\<close>, the cache has
  no entry for \<open>s\<close> and the second fetch delivers \<open>nil\<close>, which is neither the value
  before the write nor the value after it.
\<close>

theorem updateCache_not_atomic:
  "getResultFromCache 1 ''s'' (updateCache 0 ''s'' (Slice [1, 5]) Map.empty) = Slice [1, 5]
   \<and> serverCache (run (\<lambda>i. \<lparr>ctxDone = False,
                 network = (if i = 0 then Decodes \<lparr>Numbers = Slice [2]\<rparr> else DoFails)\<rparr>)
        [''s'', ''s''] [(0, 1)]
        (spawn [''s'', ''s''] (updateCache 0 ''s'' (Slice [1, 5]) Map.empty))) ''s'' = None
   \<and> map_option (\<lambda>(rs, c'). (rs, getResultFromCache 1 ''s'' c')) (processURLs (\<lambda>i. \<lparr>ctxDone = False,
                 network = (if i = 0 then Decodes \<lparr>Numbers = Slice [2]\<rparr> else DoFails)\<rparr>)
        [(0, 1), (1, 1), (0, 1), (0, 1), (1, 1)] [''s'', ''s'']
        (updateCache 0 ''s'' (Slice [1, 5]) Map.empty))
      = Some ([\<lparr>data = \<lparr>Numbers = Slice [2]\<rparr>\<rparr>, \<lparr>data = \<lparr>Numbers = NilSlice\<rparr>\<rparr>],
              Slice [2])"
  by (simp add: updateCache_eq getResultFromCache_def cache_Get_def cacheExpiration_def
      processURLs_def spawn_def step_def goroutineStep_def getResponseFromURL_def
      makeGetRequestForURL_def newGoroutine_def cachedResult_def cache_Add_def cache_set_def
      cache_Delete_def len_def Let_def)

end
